theory Spec2Isabelle
  imports Main "HOL-Library.Word"
begin

section \<open>The cache-priming workload (configs/vulcan, file prime-cache.c)\<close>

text \<open>
  The program is one C function, \<open>main\<close>, over three macros, one global byte
  (\<open>sink\<close>) and one heap block. The model threads an explicit state through it:
  the heap block (absent before the allocation and after \<open>free\<close>), the byte
  \<open>sink\<close>, and the list of effects performed so far, oldest first. An access
  outside the live block is undefined behaviour in C; here it is the value \<open>None\<close>.

  The loop counters and offsets are C \<open>int\<close>s that start at 0 and only count
  upwards to at most 16384, so they are natural numbers here; bytes are \<open>8 word\<close>
  and the checksum is a \<open>64 word\<close>, both with C's wrap-around.
\<close>

subsection \<open>Cache geometry (the macros)\<close>

definition CACHE_SIZE_BYTES :: nat where
  "CACHE_SIZE_BYTES = 16 * 1024"

definition CACHE_LINE_BYTES :: nat where
  "CACHE_LINE_BYTES = 64"

definition NUM_CACHE_LINES :: nat where
  "NUM_CACHE_LINES = CACHE_SIZE_BYTES div CACHE_LINE_BYTES"

subsection \<open>State and effects\<close>

datatype event =
    EvAlloc nat nat
  | EvStderr string
  | EvWrite nat "8 word"
  | EvRead nat
  | EvResetStats
  | EvDumpStats
  | EvSink "8 word"
  | EvFree

record state =
  heap :: "8 word list option"
  sink :: "8 word"
  trace :: "event list"

text \<open>The state at program start: no block, the global \<open>sink\<close> zero-initialised.\<close>

definition initial_state :: state where
  "initial_state = \<lparr>heap = None, sink = 0, trace = []\<rparr>"

text \<open>
  \<open>aligned_alloc\<close> either fails (returns the null pointer) or hands out a block of
  the requested size whose contents are indeterminate: the allocator is a parameter of
  the run.
\<close>

datatype allocator = AllocFails | AllocGives "nat \<Rightarrow> 8 word"

fun aligned_alloc :: "allocator \<Rightarrow> nat \<Rightarrow> nat \<Rightarrow> state \<Rightarrow> bool \<times> state" where
  "aligned_alloc AllocFails alignment sz s =
     (False, s\<lparr>trace := trace s @ [EvAlloc alignment sz]\<rparr>)"
| "aligned_alloc (AllocGives junk) alignment sz s =
     (True, s\<lparr>heap := Some (map junk [0..<sz]),
               trace := trace s @ [EvAlloc alignment sz]\<rparr>)"

definition fprintf_stderr :: "string \<Rightarrow> state \<Rightarrow> state" where
  "fprintf_stderr msg s = s\<lparr>trace := trace s @ [EvStderr msg]\<rparr>"

definition free_buf :: "state \<Rightarrow> state" where
  "free_buf s = s\<lparr>heap := None, trace := trace s @ [EvFree]\<rparr>"

text \<open>Reading and writing \<open>buf[off]\<close>: \<open>None\<close> outside the live block.\<close>

definition load :: "state \<Rightarrow> nat \<Rightarrow> (8 word \<times> state) option" where
  "load s off =
     (case heap s of
        None \<Rightarrow> None
      | Some b \<Rightarrow>
          if off < length b then Some (b ! off, s\<lparr>trace := trace s @ [EvRead off]\<rparr>)
          else None)"

definition store :: "state \<Rightarrow> nat \<Rightarrow> 8 word \<Rightarrow> state option" where
  "store s off v =
     (case heap s of
        None \<Rightarrow> None
      | Some b \<Rightarrow>
          if off < length b
          then Some (s\<lparr>heap := Some (b[off := v]), trace := trace s @ [EvWrite off v]\<rparr>)
          else None)"

subsection \<open>The simulator signals (m5ops)\<close>

definition m5_reset_stats :: "state \<Rightarrow> state" where
  "m5_reset_stats s = s\<lparr>trace := trace s @ [EvResetStats]\<rparr>"

definition m5_dump_stats :: "state \<Rightarrow> state" where
  "m5_dump_stats s = s\<lparr>trace := trace s @ [EvDumpStats]\<rparr>"

subsection \<open>The three loops of main\<close>

text \<open>\<^verbatim>\<open>for (int i = 0; i < CACHE_SIZE_BYTES; i++) buf[i] = (uint8_t)i;\<close>\<close>

function cold_touch_loop :: "nat \<Rightarrow> state \<Rightarrow> state option" where
  "cold_touch_loop i s =
     (if i < CACHE_SIZE_BYTES then
        (case store s i (of_nat i) of
           None \<Rightarrow> None
         | Some s' \<Rightarrow> cold_touch_loop (i + 1) s')
      else Some s)"
  by pat_completeness auto
termination
  by (relation "measure (\<lambda>(i, s). CACHE_SIZE_BYTES - i)") auto

text \<open>
  \<^verbatim>\<open>for (int line = 0; line < NUM_CACHE_LINES; line++) {
    int offset = line * CACHE_LINE_BYTES;
    buf[offset] += 1;
  }\<close>
\<close>

function prime_loop :: "nat \<Rightarrow> state \<Rightarrow> state option" where
  "prime_loop line s =
     (if line < NUM_CACHE_LINES then
        (let offset = line * CACHE_LINE_BYTES in
         case load s offset of
           None \<Rightarrow> None
         | Some (v, s1) \<Rightarrow>
             (case store s1 offset (v + 1) of
                None \<Rightarrow> None
              | Some s2 \<Rightarrow> prime_loop (line + 1) s2))
      else Some s)"
  by pat_completeness auto
termination
  by (relation "measure (\<lambda>(line, s). NUM_CACHE_LINES - line)") auto

text \<open>
  \<^verbatim>\<open>for (int line = 0; line < NUM_CACHE_LINES; line++)
    checksum += buf[line * CACHE_LINE_BYTES];\<close>
\<close>

function verify_loop :: "nat \<Rightarrow> 64 word \<Rightarrow> state \<Rightarrow> (64 word \<times> state) option" where
  "verify_loop line checksum s =
     (if line < NUM_CACHE_LINES then
        (case load s (line * CACHE_LINE_BYTES) of
           None \<Rightarrow> None
         | Some (v, s1) \<Rightarrow> verify_loop (line + 1) (checksum + ucast v) s1)
      else Some (checksum, s))"
  by pat_completeness auto
termination
  by (relation "measure (\<lambda>(line, checksum, s). NUM_CACHE_LINES - line)") auto

text \<open>The loop equations are unfolded by hand only, one iteration at a time.\<close>

declare cold_touch_loop.simps [simp del]
declare prime_loop.simps [simp del]
declare verify_loop.simps [simp del]

text \<open>The store \<^verbatim>\<open>sink = (uint8_t)checksum;\<close> to the volatile global.\<close>

definition store_sink :: "64 word \<Rightarrow> state \<Rightarrow> state" where
  "store_sink checksum s =
     s\<lparr>sink := ucast checksum, trace := trace s @ [EvSink (ucast checksum)]\<rparr>"

subsection \<open>main\<close>

text \<open>
  The result is the exit status with the final state, or \<open>None\<close> if an access left
  the block. The source's \<open>main\<close> calls neither \<open>m5_reset_stats\<close> nor
  \<open>m5_dump_stats\<close>: the two places are marked by comments only.
\<close>

definition main :: "allocator \<Rightarrow> (int \<times> state) option" where
  "main a =
     (case aligned_alloc a CACHE_SIZE_BYTES CACHE_SIZE_BYTES initial_state of
        (False, s) \<Rightarrow> Some (1, fprintf_stderr (''aligned_alloc failed'' @ [CHR 0x0A]) s)
      | (True, s) \<Rightarrow>
          (case cold_touch_loop 0 s of
             None \<Rightarrow> None
           | Some s1 \<Rightarrow>
               (case prime_loop 0 s1 of
                  None \<Rightarrow> None
                | Some s2 \<Rightarrow>
                    (case verify_loop 0 0 s2 of
                       None \<Rightarrow> None
                     | Some (checksum, s3) \<Rightarrow> Some (0, free_buf (store_sink checksum s3))))))"

section \<open>Geometry\<close>

lemma NUM_CACHE_LINES_eq: "NUM_CACHE_LINES = 256"
  by (simp add: NUM_CACHE_LINES_def CACHE_SIZE_BYTES_def CACHE_LINE_BYTES_def)

lemma lines_fit: "NUM_CACHE_LINES * CACHE_LINE_BYTES = CACHE_SIZE_BYTES"
  by (simp add: NUM_CACHE_LINES_def CACHE_SIZE_BYTES_def CACHE_LINE_BYTES_def)

lemma line_bytes_pos: "0 < CACHE_LINE_BYTES"
  by (simp add: CACHE_LINE_BYTES_def)

section \<open>Memory accesses inside the block\<close>

lemma store_in: "heap s = Some b \<Longrightarrow> off < length b \<Longrightarrow>
  store s off v = Some (s\<lparr>heap := Some (b[off := v]), trace := trace s @ [EvWrite off v]\<rparr>)"
  by (simp add: store_def)

lemma load_in: "heap s = Some b \<Longrightarrow> off < length b \<Longrightarrow>
  load s off = Some (b ! off, s\<lparr>trace := trace s @ [EvRead off]\<rparr>)"
  by (simp add: load_def)

lemma take_Suc_update: "i < length b \<Longrightarrow> take (Suc i) (b[i := x]) = take i b @ [x]"
  by (simp add: take_Suc_conv_app_nth)

lemma cold_touch_loop_run:
  "heap s = Some b \<Longrightarrow> length b = CACHE_SIZE_BYTES \<Longrightarrow> i \<le> CACHE_SIZE_BYTES \<Longrightarrow>
   cold_touch_loop i s =
     Some (s\<lparr>heap := Some (take i b @ map of_nat [i..<CACHE_SIZE_BYTES]),
             trace := trace s @ map (\<lambda>k. EvWrite k (of_nat k)) [i..<CACHE_SIZE_BYTES]\<rparr>)"
proof (induction i s arbitrary: b rule: cold_touch_loop.induct)
  case (1 i s)
  show ?case
  proof (cases "i < CACHE_SIZE_BYTES")
    case False
    with "1.prems" have "i = CACHE_SIZE_BYTES" by simp
    with "1.prems" show ?thesis
      by (subst cold_touch_loop.simps) simp
  next
    case True
    let ?s' = "s\<lparr>heap := Some (b[i := of_nat i]), trace := trace s @ [EvWrite i (of_nat i)]\<rparr>"
    have st: "store s i (of_nat i) = Some ?s'"
      using "1.prems" True by (simp add: store_in)
    have ih: "cold_touch_loop (i + 1) ?s' =
       Some (?s'\<lparr>heap := Some (take (i + 1) (b[i := of_nat i]) @ map of_nat [i + 1..<CACHE_SIZE_BYTES]),
             trace := trace ?s' @ map (\<lambda>k. EvWrite k (of_nat k)) [i + 1..<CACHE_SIZE_BYTES]\<rparr>)"
      using "1.prems" True by (intro "1.IH"[OF True st]) simp_all
    have up: "[i..<CACHE_SIZE_BYTES] = i # [i + 1..<CACHE_SIZE_BYTES]"
      using True by (simp add: upt_conv_Cons)
    have tk: "take (i + 1) (b[i := of_nat i]) = take i b @ [of_nat i]"
      using "1.prems" True by (simp add: take_Suc_update)
    have "cold_touch_loop i s = cold_touch_loop (i + 1) ?s'"
      using True st by (subst cold_touch_loop.simps) simp
    also note ih
    finally show ?thesis
      by (simp only: tk up) simp
  qed
qed

section \<open>What each loop computes\<close>

lemma line_offset_in: "line < NUM_CACHE_LINES \<Longrightarrow> line * CACHE_LINE_BYTES < CACHE_SIZE_BYTES"
proof -
  assume "line < NUM_CACHE_LINES"
  then have "line * CACHE_LINE_BYTES < NUM_CACHE_LINES * CACHE_LINE_BYTES"
    using line_bytes_pos by simp
  then show ?thesis by (simp add: lines_fit)
qed

lemma bump_step:
  assumes "line * CACHE_LINE_BYTES < length b"
  shows "map (\<lambda>off. if CACHE_LINE_BYTES dvd off \<and> (line + 1) * CACHE_LINE_BYTES \<le> off
                     then (b[line * CACHE_LINE_BYTES := b ! (line * CACHE_LINE_BYTES) + 1]) ! off + 1
                     else (b[line * CACHE_LINE_BYTES := b ! (line * CACHE_LINE_BYTES) + 1]) ! off)
             [0..<length b] =
         map (\<lambda>off. if CACHE_LINE_BYTES dvd off \<and> line * CACHE_LINE_BYTES \<le> off
                     then b ! off + 1 else b ! off) [0..<length b]"
proof (rule map_cong[OF refl])
  fix off assume "off \<in> set [0..<length b]"
  then have off: "off < length b" by simp
  let ?o = "line * CACHE_LINE_BYTES"
  show "(if CACHE_LINE_BYTES dvd off \<and> (line + 1) * CACHE_LINE_BYTES \<le> off
         then (b[?o := b ! ?o + 1]) ! off + 1 else (b[?o := b ! ?o + 1]) ! off) =
        (if CACHE_LINE_BYTES dvd off \<and> ?o \<le> off then b ! off + 1 else b ! off)"
  proof (cases "off = ?o")
    case True
    then show ?thesis using assms line_bytes_pos by simp
  next
    case False
    have "(line + 1) * CACHE_LINE_BYTES \<le> off"
      if d: "CACHE_LINE_BYTES dvd off" and le: "?o \<le> off"
    proof -
      from d obtain k where k: "off = CACHE_LINE_BYTES * k" by (auto simp: dvd_def)
      with le False line_bytes_pos have "line < k"
        by (metis mult.commute nat_less_le nat_mult_le_cancel_disj)
      then have "line + 1 \<le> k" by simp
      then have "(line + 1) * CACHE_LINE_BYTES \<le> k * CACHE_LINE_BYTES"
        by (rule mult_le_mono1)
      then show ?thesis using k by (simp add: mult.commute)
    qed
    moreover have "?o \<le> off" if "(line + 1) * CACHE_LINE_BYTES \<le> off"
      using that by simp
    ultimately show ?thesis using False by auto
  qed
qed

lemma prime_loop_run:
  "heap s = Some b \<Longrightarrow> length b = CACHE_SIZE_BYTES \<Longrightarrow> line \<le> NUM_CACHE_LINES \<Longrightarrow>
   prime_loop line s =
     Some (s\<lparr>heap := Some (map (\<lambda>off. if CACHE_LINE_BYTES dvd off \<and> line * CACHE_LINE_BYTES \<le> off
                                        then b ! off + 1 else b ! off) [0..<length b]),
             trace := trace s @ concat (map (\<lambda>l. [EvRead (l * CACHE_LINE_BYTES),
                                                   EvWrite (l * CACHE_LINE_BYTES) (b ! (l * CACHE_LINE_BYTES) + 1)])
                                            [line..<NUM_CACHE_LINES])\<rparr>)"
proof (induction line s arbitrary: b rule: prime_loop.induct)
  case (1 line s)
  show ?case
  proof (cases "line < NUM_CACHE_LINES")
    case False
    with "1.prems" have eq: "line = NUM_CACHE_LINES" by simp
    have "map (\<lambda>off. if CACHE_LINE_BYTES dvd off \<and> NUM_CACHE_LINES * CACHE_LINE_BYTES \<le> off
                      then b ! off + 1 else b ! off) [0..<length b] = map ((!) b) [0..<length b]"
      using "1.prems" by (intro map_cong[OF refl]) (simp add: lines_fit)
    then have "map (\<lambda>off. if CACHE_LINE_BYTES dvd off \<and> NUM_CACHE_LINES * CACHE_LINE_BYTES \<le> off
                      then b ! off + 1 else b ! off) [0..<length b] = b"
      by (simp add: map_nth)
    with eq "1.prems" show ?thesis
      by (subst prime_loop.simps) simp
  next
    case True
    let ?o = "line * CACHE_LINE_BYTES"
    let ?b' = "b[?o := b ! ?o + 1]"
    let ?s1 = "s\<lparr>trace := trace s @ [EvRead ?o]\<rparr>"
    let ?s2 = "s\<lparr>heap := Some ?b', trace := trace s @ [EvRead ?o, EvWrite ?o (b ! ?o + 1)]\<rparr>"
    have inb: "?o < length b"
      using True "1.prems" by (simp add: line_offset_in)
    have ld: "load s ?o = Some (b ! ?o, ?s1)"
      using "1.prems" inb by (simp add: load_in)
    have st: "store ?s1 ?o (b ! ?o + 1) = Some ?s2"
      using "1.prems" inb by (simp add: store_in)
    have ih: "prime_loop (line + 1) ?s2 =
       Some (?s2\<lparr>heap := Some (map (\<lambda>off. if CACHE_LINE_BYTES dvd off \<and> (line + 1) * CACHE_LINE_BYTES \<le> off
                                        then ?b' ! off + 1 else ?b' ! off) [0..<length ?b']),
             trace := trace ?s2 @ concat (map (\<lambda>l. [EvRead (l * CACHE_LINE_BYTES),
                                                   EvWrite (l * CACHE_LINE_BYTES) (?b' ! (l * CACHE_LINE_BYTES) + 1)])
                                            [line + 1..<NUM_CACHE_LINES])\<rparr>)"
      using "1.prems" True
      by (intro "1.IH"[OF True refl ld refl st]) simp_all
    have ev: "map (\<lambda>l. [EvRead (l * CACHE_LINE_BYTES),
                        EvWrite (l * CACHE_LINE_BYTES) (?b' ! (l * CACHE_LINE_BYTES) + 1)])
                  [line + 1..<NUM_CACHE_LINES] =
              map (\<lambda>l. [EvRead (l * CACHE_LINE_BYTES),
                        EvWrite (l * CACHE_LINE_BYTES) (b ! (l * CACHE_LINE_BYTES) + 1)])
                  [line + 1..<NUM_CACHE_LINES]"
    proof (rule map_cong[OF refl])
      fix l assume "l \<in> set [line + 1..<NUM_CACHE_LINES]"
      then have "l \<noteq> line" by simp
      then have "l * CACHE_LINE_BYTES \<noteq> ?o" using line_bytes_pos by simp
      then show "[EvRead (l * CACHE_LINE_BYTES),
                  EvWrite (l * CACHE_LINE_BYTES) (?b' ! (l * CACHE_LINE_BYTES) + 1)] =
                 [EvRead (l * CACHE_LINE_BYTES),
                  EvWrite (l * CACHE_LINE_BYTES) (b ! (l * CACHE_LINE_BYTES) + 1)]"
        by simp
    qed
    have up: "[line..<NUM_CACHE_LINES] = line # [line + 1..<NUM_CACHE_LINES]"
      using True by (simp add: upt_conv_Cons)
    have "prime_loop line s = prime_loop (line + 1) ?s2"
      using True ld st by (subst prime_loop.simps) (simp add: Let_def)
    also note ih
    finally show ?thesis
      using bump_step[OF inb] by (simp only: ev up) simp
  qed
qed

lemma verify_loop_run:
  "heap s = Some b \<Longrightarrow> length b = CACHE_SIZE_BYTES \<Longrightarrow> line \<le> NUM_CACHE_LINES \<Longrightarrow>
   verify_loop line checksum s =
     Some (checksum + sum_list (map (\<lambda>l. ucast (b ! (l * CACHE_LINE_BYTES))) [line..<NUM_CACHE_LINES]),
           s\<lparr>trace := trace s @ map (\<lambda>l. EvRead (l * CACHE_LINE_BYTES)) [line..<NUM_CACHE_LINES]\<rparr>)"
proof (induction line checksum s rule: verify_loop.induct)
  case (1 line checksum s)
  show ?case
  proof (cases "line < NUM_CACHE_LINES")
    case False
    with "1.prems" have "line = NUM_CACHE_LINES" by simp
    then show ?thesis
      by (subst verify_loop.simps) simp
  next
    case True
    let ?o = "line * CACHE_LINE_BYTES"
    let ?s1 = "s\<lparr>trace := trace s @ [EvRead ?o]\<rparr>"
    have inb: "?o < length b"
      using True "1.prems" by (simp add: line_offset_in)
    have ld: "load s ?o = Some (b ! ?o, ?s1)"
      using "1.prems" inb by (simp add: load_in)
    have ih: "verify_loop (line + 1) (checksum + ucast (b ! ?o)) ?s1 =
       Some (checksum + ucast (b ! ?o) +
               sum_list (map (\<lambda>l. ucast (b ! (l * CACHE_LINE_BYTES))) [line + 1..<NUM_CACHE_LINES]),
             ?s1\<lparr>trace := trace ?s1 @ map (\<lambda>l. EvRead (l * CACHE_LINE_BYTES)) [line + 1..<NUM_CACHE_LINES]\<rparr>)"
      using "1.prems" True
      by (intro "1.IH"[OF True ld refl]) simp_all
    have up: "[line..<NUM_CACHE_LINES] = line # [line + 1..<NUM_CACHE_LINES]"
      using True by (simp add: upt_conv_Cons)
    have "verify_loop line checksum s = verify_loop (line + 1) (checksum + ucast (b ! ?o)) ?s1"
      using True ld by (subst verify_loop.simps) simp
    also note ih
    finally show ?thesis
      by (simp only: up) (simp add: add.assoc)
  qed
qed

section \<open>Byte and checksum arithmetic\<close>

lemma of_nat_mod_256: "(of_nat (i mod 256) :: 8 word) = of_nat i"
  by (simp add: word_of_nat_eq_iff take_bit_eq_mod)

lemma primed_byte: "unat (of_nat (l * 64) + 1 :: 8 word) = (l mod 4) * 64 + 1"
proof -
  define q r where "q = l div 4" and "r = l mod 4"
  have l: "l = 4 * q + r" and r: "r < 4"
    by (simp_all add: q_def r_def)
  have "unat (of_nat (l * 64) + 1 :: 8 word) = (l * 64 + 1) mod 256"
    by (simp add: unat_word_ariths unat_of_nat mod_simps)
  also have "l * 64 + 1 = (r * 64 + 1) + 256 * q"
    by (simp add: l)
  also have "((r * 64 + 1) + 256 * q) mod 256 = (r * 64 + 1) mod 256"
    by (rule mod_mult_self2)
  also have "\<dots> = r * 64 + 1"
    using r by simp
  finally show ?thesis by (simp add: r_def)
qed

lemma period_sum: "sum_list (map (\<lambda>l. (l mod 4) * 64 + 1) [0..<4 * k]) = 388 * k"
proof (induction k)
  case 0
  show ?case by simp
next
  case (Suc k)
  have e: "4 * Suc k = Suc (Suc (Suc (Suc (4 * k))))"
    by simp
  have m0: "(4 * k) mod 4 = 0" by simp
  have m1: "Suc (4 * k) mod 4 = 1" by presburger
  have m2: "Suc (Suc (4 * k)) mod 4 = 2" by presburger
  have m3: "Suc (Suc (Suc (4 * k))) mod 4 = 3" by presburger
  show ?case
    unfolding e using Suc.IH by (simp add: m0 m1 m2 m3)
qed

lemma checksum_nat:
  "sum_list (map (\<lambda>l. unat (of_nat (l * CACHE_LINE_BYTES) + 1 :: 8 word)) [0..<NUM_CACHE_LINES]) = 24832"
proof -
  have "sum_list (map (\<lambda>l. unat (of_nat (l * 64) + 1 :: 8 word)) [0..<4 * 64]) = 388 * 64"
    unfolding primed_byte by (rule period_sum)
  then show ?thesis
    by (simp add: NUM_CACHE_LINES_eq CACHE_LINE_BYTES_def)
qed

lemma sum_list_ucast:
  "sum_list (map (\<lambda>l. ucast (f l :: 8 word)) xs) = (of_nat (sum_list (map (\<lambda>l. unat (f l)) xs)) :: 64 word)"
  by (induction xs) simp_all

lemma checksum_value:
  "sum_list (map (\<lambda>l. ucast (of_nat (l * CACHE_LINE_BYTES) + 1 :: 8 word)) [0..<NUM_CACHE_LINES]) = (24832 :: 64 word)"
  by (simp only: sum_list_ucast checksum_nat) simp

lemma unat_checksum: "unat (24832 :: 64 word) = 24832"
  by simp

section \<open>The passes from a live block, and the whole run\<close>

lemma cold_touch_run:
  assumes "heap s = Some b" and "length b = CACHE_SIZE_BYTES"
  shows "cold_touch_loop 0 s =
     Some (s\<lparr>heap := Some (map of_nat [0..<CACHE_SIZE_BYTES]),
             trace := trace s @ map (\<lambda>k. EvWrite k (of_nat k)) [0..<CACHE_SIZE_BYTES]\<rparr>)"
  using cold_touch_loop_run[OF assms, of 0] by simp

lemma prime_run:
  assumes "heap s = Some b" and "length b = CACHE_SIZE_BYTES"
  shows "prime_loop 0 s =
     Some (s\<lparr>heap := Some (map (\<lambda>off. if CACHE_LINE_BYTES dvd off then b ! off + 1 else b ! off)
                                 [0..<CACHE_SIZE_BYTES]),
             trace := trace s @ concat (map (\<lambda>l. [EvRead (l * CACHE_LINE_BYTES),
                                                   EvWrite (l * CACHE_LINE_BYTES) (b ! (l * CACHE_LINE_BYTES) + 1)])
                                            [0..<NUM_CACHE_LINES])\<rparr>)"
  using prime_loop_run[OF assms, of 0] assms(2) by simp

lemma verify_run:
  assumes "heap s = Some b" and "length b = CACHE_SIZE_BYTES"
  shows "verify_loop 0 0 s =
     Some (sum_list (map (\<lambda>l. ucast (b ! (l * CACHE_LINE_BYTES))) [0..<NUM_CACHE_LINES]),
           s\<lparr>trace := trace s @ map (\<lambda>l. EvRead (l * CACHE_LINE_BYTES)) [0..<NUM_CACHE_LINES]\<rparr>)"
  using verify_loop_run[OF assms, of 0 0] by simp

lemma prime_after_cold:
  assumes "heap s = Some (map of_nat [0..<CACHE_SIZE_BYTES])"
  shows "prime_loop 0 s =
     Some (s\<lparr>heap := Some (map (\<lambda>off. if CACHE_LINE_BYTES dvd off then of_nat off + 1 else of_nat off)
                                 [0..<CACHE_SIZE_BYTES]),
             trace := trace s @ concat (map (\<lambda>l. [EvRead (l * CACHE_LINE_BYTES),
                                                   EvWrite (l * CACHE_LINE_BYTES) (of_nat (l * CACHE_LINE_BYTES) + 1)])
                                            [0..<NUM_CACHE_LINES])\<rparr>)"
proof -
  let ?b = "map of_nat [0..<CACHE_SIZE_BYTES] :: 8 word list"
  have buf: "map (\<lambda>off. if CACHE_LINE_BYTES dvd off then ?b ! off + 1 else ?b ! off) [0..<CACHE_SIZE_BYTES] =
             map (\<lambda>off. if CACHE_LINE_BYTES dvd off then of_nat off + 1 else of_nat off) [0..<CACHE_SIZE_BYTES]"
    by (rule map_cong[OF refl]) simp
  have ev: "map (\<lambda>l. [EvRead (l * CACHE_LINE_BYTES),
                       EvWrite (l * CACHE_LINE_BYTES) (?b ! (l * CACHE_LINE_BYTES) + 1)]) [0..<NUM_CACHE_LINES] =
            map (\<lambda>l. [EvRead (l * CACHE_LINE_BYTES),
                       EvWrite (l * CACHE_LINE_BYTES) (of_nat (l * CACHE_LINE_BYTES) + 1)]) [0..<NUM_CACHE_LINES]"
    by (rule map_cong[OF refl]) (simp add: line_offset_in)
  show ?thesis
    using prime_run[OF assms] by (simp only: buf ev length_map length_upt)
qed

lemma primed_line_byte:
  "l < NUM_CACHE_LINES \<Longrightarrow>
   map (\<lambda>off. if CACHE_LINE_BYTES dvd off then of_nat off + 1 else of_nat off)
       [0..<CACHE_SIZE_BYTES] ! (l * CACHE_LINE_BYTES) = (of_nat (l * CACHE_LINE_BYTES) + 1 :: 8 word)"
  by (simp add: line_offset_in)

lemma verify_after_prime:
  assumes "heap s = Some (map (\<lambda>off. if CACHE_LINE_BYTES dvd off then of_nat off + 1 else of_nat off)
                              [0..<CACHE_SIZE_BYTES])"
  shows "verify_loop 0 0 s =
     Some (24832, s\<lparr>trace := trace s @ map (\<lambda>l. EvRead (l * CACHE_LINE_BYTES)) [0..<NUM_CACHE_LINES]\<rparr>)"
proof -
  let ?b = "map (\<lambda>off. if CACHE_LINE_BYTES dvd off then of_nat off + 1 else of_nat off)
                [0..<CACHE_SIZE_BYTES] :: 8 word list"
  have "map (\<lambda>l. ucast (?b ! (l * CACHE_LINE_BYTES)) :: 64 word) [0..<NUM_CACHE_LINES] =
        map (\<lambda>l. ucast (of_nat (l * CACHE_LINE_BYTES) + 1 :: 8 word)) [0..<NUM_CACHE_LINES]"
    by (rule map_cong[OF refl]) (simp add: line_offset_in)
  then have "sum_list (map (\<lambda>l. ucast (?b ! (l * CACHE_LINE_BYTES)) :: 64 word) [0..<NUM_CACHE_LINES]) = 24832"
    by (simp only: checksum_value)
  then show ?thesis
    using verify_run[OF assms] by simp
qed

lemma main_run:
  "main (AllocGives junk) =
     Some (0, \<lparr>heap = None, sink = 0,
               trace = EvAlloc CACHE_SIZE_BYTES CACHE_SIZE_BYTES #
                       map (\<lambda>k. EvWrite k (of_nat k)) [0..<CACHE_SIZE_BYTES] @
                       concat (map (\<lambda>l. [EvRead (l * CACHE_LINE_BYTES),
                                          EvWrite (l * CACHE_LINE_BYTES) (of_nat (l * CACHE_LINE_BYTES) + 1)])
                                   [0..<NUM_CACHE_LINES]) @
                       map (\<lambda>l. EvRead (l * CACHE_LINE_BYTES)) [0..<NUM_CACHE_LINES] @
                       [EvSink 0, EvFree]\<rparr>)"
proof -
  let ?s0 = "\<lparr>heap = Some (map junk [0..<CACHE_SIZE_BYTES]), sink = 0,
              trace = [EvAlloc CACHE_SIZE_BYTES CACHE_SIZE_BYTES]\<rparr>"
  let ?cold = "map (\<lambda>k. EvWrite k (of_nat k)) [0..<CACHE_SIZE_BYTES]"
  let ?prime = "concat (map (\<lambda>l. [EvRead (l * CACHE_LINE_BYTES),
                                   EvWrite (l * CACHE_LINE_BYTES) (of_nat (l * CACHE_LINE_BYTES) + 1)])
                            [0..<NUM_CACHE_LINES])"
  let ?verify = "map (\<lambda>l. EvRead (l * CACHE_LINE_BYTES)) [0..<NUM_CACHE_LINES]"
  let ?s1 = "?s0\<lparr>heap := Some (map of_nat [0..<CACHE_SIZE_BYTES]), trace := trace ?s0 @ ?cold\<rparr>"
  let ?s2 = "?s1\<lparr>heap := Some (map (\<lambda>off. if CACHE_LINE_BYTES dvd off then of_nat off + 1 else of_nat off)
                                      [0..<CACHE_SIZE_BYTES]),
                  trace := trace ?s1 @ ?prime\<rparr>"
  let ?s3 = "?s2\<lparr>trace := trace ?s2 @ ?verify\<rparr>"
  have a: "aligned_alloc (AllocGives junk) CACHE_SIZE_BYTES CACHE_SIZE_BYTES initial_state = (True, ?s0)"
    by (simp add: initial_state_def)
  have c: "cold_touch_loop 0 ?s0 = Some ?s1"
    by (rule cold_touch_run[where b = "map junk [0..<CACHE_SIZE_BYTES]"]) simp_all
  have p: "prime_loop 0 ?s1 = Some ?s2"
    by (rule prime_after_cold) simp
  have v: "verify_loop 0 0 ?s2 = Some (24832, ?s3)"
    by (rule verify_after_prime) simp
  show ?thesis
    unfolding main_def a by (simp only: c p v prod.case option.case bool.case)
      (simp add: free_buf_def store_sink_def)
qed

section \<open>Helper facts for the claims\<close>

lemma m5_signals_visible:
  "EvResetStats \<in> set (trace (m5_reset_stats s)) \<and> EvDumpStats \<in> set (trace (m5_dump_stats s))"
  by (simp add: m5_reset_stats_def m5_dump_stats_def)

lemma main_alloc_fails:
  "main AllocFails =
     Some (1, \<lparr>heap = None, sink = 0,
               trace = [EvAlloc CACHE_SIZE_BYTES CACHE_SIZE_BYTES,
                        EvStderr (''aligned_alloc failed'' @ [CHR 0x0A])]\<rparr>)"
  by (simp add: main_def initial_state_def fprintf_stderr_def)

lemma cold_events_mod:
  "map (\<lambda>i. EvWrite i (of_nat (i mod 256))) xs = map (\<lambda>k. EvWrite k (of_nat k)) xs"
  by (simp add: of_nat_mod_256)

lemma cold_bytes_mod:
  "map (\<lambda>i. of_nat (i mod 256) :: 8 word) xs = map of_nat xs"
  by (simp add: of_nat_mod_256)

lemma line_offsets_distinct:
  "distinct (map (\<lambda>line. line * CACHE_LINE_BYTES) [0..<NUM_CACHE_LINES])"
  using line_bytes_pos by (simp add: distinct_map inj_on_def)

lemma line_offsets_ascending:
  "sorted_wrt (<) (map (\<lambda>line. line * CACHE_LINE_BYTES) [0..<NUM_CACHE_LINES])"
proof -
  have "sorted_wrt (\<lambda>x y. x * CACHE_LINE_BYTES < y * CACHE_LINE_BYTES) [0..<NUM_CACHE_LINES]"
    using line_bytes_pos by (intro sorted_wrt_mono_rel[OF _ sorted_wrt_upt]) simp
  then show ?thesis by (simp add: sorted_wrt_map)
qed

lemma line_offset_mem:
  "k < NUM_CACHE_LINES \<Longrightarrow>
   k * CACHE_LINE_BYTES \<in> set (map (\<lambda>line. line * CACHE_LINE_BYTES) [0..<NUM_CACHE_LINES])"
  unfolding set_map by (rule image_eqI[where x = k]) simp_all

lemma primed_byte_mod:
  "unat (of_nat (l * 64) + 1 :: 8 word) = ((l * 64) mod 256 + 1) mod 256"
  by (simp add: unat_word_ariths unat_of_nat mod_simps)

lemma main_alloc_fails_bounds:
  "list_all (\<lambda>e. case e of EvWrite off v \<Rightarrow> off < CACHE_SIZE_BYTES
                         | EvRead off \<Rightarrow> off < CACHE_SIZE_BYTES
                         | _ \<Rightarrow> True)
     [EvAlloc CACHE_SIZE_BYTES CACHE_SIZE_BYTES, EvStderr (''aligned_alloc failed'' @ [CHR 0x0A])]"
  by simp

section \<open>The claims\<close>

text \<open>
  C1. The claim is that the run emits the reset-statistics signal between the cold-touch
  pass and the prime pass, and the dump-statistics signal after the sink store. The
  source defines both signals and documents that use, but \<open>main\<close> calls neither: in a
  run whose allocation succeeds the program exits with status 0 and its effects contain
  no reset-statistics and no dump-statistics signal.
\<close>

theorem main_never_signals_statistics:
  "\<exists>s. main (AllocGives (\<lambda>_. 0)) = Some (0, s) \<and>
        EvResetStats \<notin> set (trace s) \<and> EvDumpStats \<notin> set (trace s)"
  by (auto simp: main_run)

text \<open>
  C2. From any state with a live block of the cache size: after the cold-touch pass and
  one prime pass, the verify pass reads exactly \<open>buf[line * 64]\<close> for
  \<open>line = 0, \<dots>, 255\<close> in this order, each such byte is
  \<open>((line * 64) mod 256 + 1) mod 256\<close>, and the checksum is the sum of these 256
  bytes, a number that does not depend on the block's earlier contents.
\<close>

theorem checksum_determinism:
  assumes "heap s = Some b" and "length b = CACHE_SIZE_BYTES"
  shows "\<exists>s1 s2 s3 b2 c.
           CACHE_SIZE_BYTES = 16384 \<and> CACHE_LINE_BYTES = 64 \<and> NUM_CACHE_LINES = 256 \<and>
           cold_touch_loop 0 s = Some s1 \<and> prime_loop 0 s1 = Some s2 \<and> heap s2 = Some b2 \<and>
           verify_loop 0 0 s2 = Some (c, s3) \<and>
           trace s3 = trace s2 @ map (\<lambda>line. EvRead (line * 64)) [0..<256] \<and>
           (\<forall>line<256. unat (b2 ! (line * 64)) = ((line * 64) mod 256 + 1) mod 256) \<and>
           c = sum_list (map (\<lambda>line. ucast (b2 ! (line * 64))) [0..<256]) \<and>
           unat c = sum_list (map (\<lambda>line. ((line * 64) mod 256 + 1) mod 256) [0..<256])"
proof -
  let ?cb = "map of_nat [0..<CACHE_SIZE_BYTES] :: 8 word list"
  let ?pb = "map (\<lambda>off. if CACHE_LINE_BYTES dvd off then of_nat off + 1 else of_nat off)
                 [0..<CACHE_SIZE_BYTES] :: 8 word list"
  let ?s1 = "s\<lparr>heap := Some ?cb,
                trace := trace s @ map (\<lambda>k. EvWrite k (of_nat k)) [0..<CACHE_SIZE_BYTES]\<rparr>"
  let ?s2 = "?s1\<lparr>heap := Some ?pb,
                  trace := trace ?s1 @
                    concat (map (\<lambda>l. [EvRead (l * CACHE_LINE_BYTES),
                                       EvWrite (l * CACHE_LINE_BYTES) (of_nat (l * CACHE_LINE_BYTES) + 1)])
                                [0..<NUM_CACHE_LINES])\<rparr>"
  let ?c = "sum_list (map (\<lambda>l. ucast (?pb ! (l * CACHE_LINE_BYTES))) [0..<NUM_CACHE_LINES]) :: 64 word"
  let ?s3 = "?s2\<lparr>trace := trace ?s2 @ map (\<lambda>l. EvRead (l * CACHE_LINE_BYTES)) [0..<NUM_CACHE_LINES]\<rparr>"
  have c: "cold_touch_loop 0 s = Some ?s1"
    by (rule cold_touch_run[OF assms])
  have p: "prime_loop 0 ?s1 = Some ?s2"
    by (rule prime_after_cold) simp
  have h2: "heap ?s2 = Some ?pb"
    by simp
  have v: "verify_loop 0 0 ?s2 = Some (?c, ?s3)"
    by (rule verify_run[OF h2]) simp
  have t: "trace ?s3 = trace ?s2 @ map (\<lambda>line. EvRead (line * 64)) [0..<256]"
    by (simp add: NUM_CACHE_LINES_eq CACHE_LINE_BYTES_def)
  have bytes: "\<forall>line<256. unat (?pb ! (line * 64)) = ((line * 64) mod 256 + 1) mod 256"
  proof (intro allI impI)
    fix line :: nat assume "line < 256"
    then have "line < NUM_CACHE_LINES" by (simp add: NUM_CACHE_LINES_eq)
    then have "?pb ! (line * CACHE_LINE_BYTES) = of_nat (line * CACHE_LINE_BYTES) + 1"
      by (rule primed_line_byte)
    then show "unat (?pb ! (line * 64)) = ((line * 64) mod 256 + 1) mod 256"
      by (simp only: CACHE_LINE_BYTES_def primed_byte_mod)
  qed
  have csum: "?c = sum_list (map (\<lambda>line. ucast (?pb ! (line * 64))) [0..<256])"
    by (simp only: NUM_CACHE_LINES_eq CACHE_LINE_BYTES_def)
  have "map (\<lambda>l. ucast (?pb ! (l * CACHE_LINE_BYTES)) :: 64 word) [0..<NUM_CACHE_LINES] =
        map (\<lambda>l. ucast (of_nat (l * CACHE_LINE_BYTES) + 1 :: 8 word)) [0..<NUM_CACHE_LINES]"
    by (rule map_cong[OF refl]) (simp add: line_offset_in)
  then have c24: "?c = 24832"
    by (simp only: checksum_value)
  have "sum_list (map (\<lambda>line. ((line * 64) mod 256 + 1) mod 256) [0..<256]) = (24832::nat)"
    using checksum_nat by (simp only: NUM_CACHE_LINES_eq CACHE_LINE_BYTES_def primed_byte_mod)
  then have u: "unat ?c = sum_list (map (\<lambda>line. ((line * 64) mod 256 + 1) mod 256) [0..<256])"
    by (simp only: c24 unat_checksum)
  have g: "CACHE_SIZE_BYTES = 16384" "CACHE_LINE_BYTES = 64" "NUM_CACHE_LINES = 256"
    by (simp_all add: CACHE_SIZE_BYTES_def CACHE_LINE_BYTES_def NUM_CACHE_LINES_eq)
  from g c p h2 v t bytes csum u show ?thesis
    by blast
qed

theorem checksum_determinism_witness:
  "\<exists>s1 s2 s3 b2 c.
     cold_touch_loop 0 \<lparr>heap = Some (replicate CACHE_SIZE_BYTES 7), sink = 0, trace = []\<rparr> = Some s1 \<and>
     prime_loop 0 s1 = Some s2 \<and> heap s2 = Some b2 \<and> verify_loop 0 0 s2 = Some (c, s3) \<and>
     unat (b2 ! (3 * 64)) = 193 \<and>
     unat c = sum_list (map (\<lambda>line. ((line * 64) mod 256 + 1) mod 256) [0..<256])"
proof -
  let ?s = "\<lparr>heap = Some (replicate CACHE_SIZE_BYTES 7), sink = 0, trace = []\<rparr>"
  have "heap ?s = Some (replicate CACHE_SIZE_BYTES 7)"
    and "length (replicate CACHE_SIZE_BYTES (7 :: 8 word)) = CACHE_SIZE_BYTES"
    by simp_all
  from checksum_determinism[OF this] obtain s1 s2 s3 b2 c where
    run: "cold_touch_loop 0 ?s = Some s1" "prime_loop 0 s1 = Some s2" "heap s2 = Some b2"
      "verify_loop 0 0 s2 = Some (c, s3)"
    and bytes: "\<forall>line<256. unat (b2 ! (line * 64)) = ((line * 64) mod 256 + 1) mod 256"
    and u: "unat c = sum_list (map (\<lambda>line. ((line * 64) mod 256 + 1) mod 256) [0..<256])"
    by blast
  from bytes[rule_format, of 3] have "unat (b2 ! (3 * 64)) = 193"
    by simp
  with run u show ?thesis by blast
qed

text \<open>
  C3. The prime pass, on a live block of the cache size, performs for each line one read
  of \<open>buf[offset]\<close> followed by one write of the value read plus one to the same
  offset, at the offsets \<open>0, CACHE_LINE_BYTES, \<dots>, (NUM_CACHE_LINES - 1) * CACHE_LINE_BYTES\<close>
  in ascending order: \<open>NUM_CACHE_LINES\<close> offsets, pairwise distinct, and nothing else.
  The writes take effect: afterwards the byte at each of these offsets is its old value
  plus one (modulo 256), every other byte of the block is what it was, and the sink is
  untouched.
\<close>

theorem prime_pass_coverage:
  assumes "heap s = Some b" and "length b = CACHE_SIZE_BYTES"
  shows "\<exists>s'. prime_loop 0 s = Some s' \<and>
           trace s' = trace s @
             concat (map (\<lambda>off. [EvRead off, EvWrite off (b ! off + 1)])
                         (map (\<lambda>line. line * CACHE_LINE_BYTES) [0..<NUM_CACHE_LINES])) \<and>
           length (map (\<lambda>line. line * CACHE_LINE_BYTES) [0..<NUM_CACHE_LINES]) = NUM_CACHE_LINES \<and>
           distinct (map (\<lambda>line. line * CACHE_LINE_BYTES) [0..<NUM_CACHE_LINES]) \<and>
           sorted_wrt (<) (map (\<lambda>line. line * CACHE_LINE_BYTES) [0..<NUM_CACHE_LINES]) \<and>
           heap s' =
             Some (map (\<lambda>off. if off \<in> set (map (\<lambda>line. line * CACHE_LINE_BYTES) [0..<NUM_CACHE_LINES])
                              then b ! off + 1 else b ! off)
                       [0..<CACHE_SIZE_BYTES]) \<and>
           sink s' = sink s"
proof -
  let ?offs = "map (\<lambda>line. line * CACHE_LINE_BYTES) [0..<NUM_CACHE_LINES]"
  let ?b' = "map (\<lambda>off. if CACHE_LINE_BYTES dvd off then b ! off + 1 else b ! off)
                 [0..<CACHE_SIZE_BYTES]"
  let ?s' = "s\<lparr>heap := Some ?b',
                trace := trace s @
                  concat (map (\<lambda>l. [EvRead (l * CACHE_LINE_BYTES),
                                     EvWrite (l * CACHE_LINE_BYTES) (b ! (l * CACHE_LINE_BYTES) + 1)])
                              [0..<NUM_CACHE_LINES])\<rparr>"
  have run: "prime_loop 0 s = Some ?s'"
    by (rule prime_run[OF assms])
  have tr: "trace ?s' = trace s @ concat (map (\<lambda>off. [EvRead off, EvWrite off (b ! off + 1)]) ?offs)"
    by (simp add: comp_def)
  have len: "length ?offs = NUM_CACHE_LINES"
    by simp
  have "?b' = map (\<lambda>off. if off \<in> set ?offs then b ! off + 1 else b ! off) [0..<CACHE_SIZE_BYTES]"
  proof (rule map_cong[OF refl])
    fix off assume "off \<in> set [0..<CACHE_SIZE_BYTES]"
    then have off: "off < CACHE_SIZE_BYTES" by simp
    have "CACHE_LINE_BYTES dvd off \<longleftrightarrow> off \<in> set ?offs"
    proof
      assume "CACHE_LINE_BYTES dvd off"
      then obtain k where k: "off = k * CACHE_LINE_BYTES"
        by (auto simp: dvd_def mult.commute)
      with off have "k * CACHE_LINE_BYTES < NUM_CACHE_LINES * CACHE_LINE_BYTES"
        by (simp add: lines_fit)
      then have "k < NUM_CACHE_LINES"
        by simp
      then have "k * CACHE_LINE_BYTES \<in> set ?offs"
        by (rule line_offset_mem)
      with k show "off \<in> set ?offs"
        by (simp only:)
    next
      assume "off \<in> set ?offs"
      then show "CACHE_LINE_BYTES dvd off"
        by auto
    qed
    then show "(if CACHE_LINE_BYTES dvd off then b ! off + 1 else b ! off) =
               (if off \<in> set ?offs then b ! off + 1 else b ! off)"
      by simp
  qed
  then have hp: "heap ?s' =
      Some (map (\<lambda>off. if off \<in> set ?offs then b ! off + 1 else b ! off) [0..<CACHE_SIZE_BYTES])"
    by simp
  have sk: "sink ?s' = sink s"
    by simp
  show ?thesis
    by (intro exI conjI)
      (fact run, fact tr, fact len, fact line_offsets_distinct, fact line_offsets_ascending,
       fact hp, fact sk)
qed

theorem prime_pass_coverage_witness:
  "\<exists>s' b'. prime_loop 0 \<lparr>heap = Some (replicate CACHE_SIZE_BYTES 7), sink = 0, trace = []\<rparr> = Some s' \<and>
        trace s' =
          concat (map (\<lambda>off. [EvRead off, EvWrite off (replicate CACHE_SIZE_BYTES 7 ! off + 1)])
                      (map (\<lambda>line. line * CACHE_LINE_BYTES) [0..<NUM_CACHE_LINES])) \<and>
        distinct (map (\<lambda>line. line * CACHE_LINE_BYTES) [0..<NUM_CACHE_LINES]) \<and>
        heap s' = Some b' \<and> b' ! 64 = 8 \<and> b' ! 65 = 7 \<and> sink s' = 0"
proof -
  let ?s = "\<lparr>heap = Some (replicate CACHE_SIZE_BYTES 7), sink = 0, trace = []\<rparr>"
  let ?b = "replicate CACHE_SIZE_BYTES (7 :: 8 word)"
  let ?offs = "map (\<lambda>line. line * CACHE_LINE_BYTES) [0..<NUM_CACHE_LINES]"
  let ?b' = "map (\<lambda>off. if off \<in> set ?offs then ?b ! off + 1 else ?b ! off) [0..<CACHE_SIZE_BYTES]"
  have in64: "64 < CACHE_SIZE_BYTES" and in65: "65 < CACHE_SIZE_BYTES"
    by (simp_all add: CACHE_SIZE_BYTES_def)
  have "(1::nat) < NUM_CACHE_LINES"
    by (simp add: NUM_CACHE_LINES_eq)
  then have "1 * CACHE_LINE_BYTES \<in> set ?offs"
    by (rule line_offset_mem)
  then have m64: "64 \<in> set ?offs"
    by (simp add: CACHE_LINE_BYTES_def)
  have "\<not> CACHE_LINE_BYTES dvd 65"
    by (simp add: CACHE_LINE_BYTES_def)
  then have m65: "65 \<notin> set ?offs"
    by auto
  have b64: "?b' ! 64 = 8"
    using in64 m64 by (simp del: set_map set_upt)
  have b65: "?b' ! 65 = 7"
    using in65 m65 by (simp del: set_map set_upt)
  have "heap ?s = Some ?b" and "length ?b = CACHE_SIZE_BYTES"
    by simp_all
  from prime_pass_coverage[OF this] obtain s' where
    r: "prime_loop 0 ?s = Some s'"
    and t: "trace s' = trace ?s @ concat (map (\<lambda>off. [EvRead off, EvWrite off (?b ! off + 1)]) ?offs)"
    and d: "distinct ?offs"
    and h: "heap s' = Some ?b'"
    and k: "sink s' = sink ?s"
    by blast
  from t have t': "trace s' = concat (map (\<lambda>off. [EvRead off, EvWrite off (?b ! off + 1)]) ?offs)"
    by simp
  from k have k': "sink s' = 0"
    by simp
  show ?thesis
    by (intro exI conjI) (fact r, fact t', fact d, fact h, fact b64, fact b65, fact k')
qed

text \<open>
  C4. When \<open>aligned_alloc\<close> fails, the program prints the line
  \<open>aligned_alloc failed\<close> to standard error and exits with status 1; its only effects
  are the allocation request and that line (no access to a block, no sink store, no
  \<open>free\<close>). When the allocation succeeds, the program runs to completion and exits
  with status 0.
\<close>

theorem allocation_failure_exit:
  "main AllocFails =
     Some (1, \<lparr>heap = None, sink = 0,
               trace = [EvAlloc CACHE_SIZE_BYTES CACHE_SIZE_BYTES,
                        EvStderr (''aligned_alloc failed'' @ [CHR 0x0A])]\<rparr>) \<and>
   (\<exists>s. main (AllocGives junk) = Some (0, s))"
  by (simp add: main_alloc_fails main_run)

text \<open>
  C5. The cold-touch pass writes the offsets \<open>0, \<dots>, CACHE_SIZE_BYTES - 1\<close> once
  each, the byte at offset \<open>i\<close> becoming \<open>i mod 256\<close>; in the run of \<open>main\<close>
  these writes come directly after the allocation and before every access of the prime
  and verify passes.
\<close>

theorem cold_touch_writes_every_byte_once:
  "(\<exists>s1. cold_touch_loop 0
            (snd (aligned_alloc (AllocGives junk) CACHE_SIZE_BYTES CACHE_SIZE_BYTES initial_state)) = Some s1 \<and>
         heap s1 = Some (map (\<lambda>i. of_nat (i mod 256)) [0..<CACHE_SIZE_BYTES])) \<and>
   (\<exists>s. main (AllocGives junk) = Some (0, s) \<and>
        trace s = EvAlloc CACHE_SIZE_BYTES CACHE_SIZE_BYTES #
                  map (\<lambda>i. EvWrite i (of_nat (i mod 256))) [0..<CACHE_SIZE_BYTES] @
                  concat (map (\<lambda>l. [EvRead (l * CACHE_LINE_BYTES),
                                     EvWrite (l * CACHE_LINE_BYTES) (of_nat (l * CACHE_LINE_BYTES) + 1)])
                              [0..<NUM_CACHE_LINES]) @
                  map (\<lambda>l. EvRead (l * CACHE_LINE_BYTES)) [0..<NUM_CACHE_LINES] @
                  [EvSink 0, EvFree])"
proof -
  let ?s0 = "snd (aligned_alloc (AllocGives junk) CACHE_SIZE_BYTES CACHE_SIZE_BYTES initial_state)"
  have "heap ?s0 = Some (map junk [0..<CACHE_SIZE_BYTES])"
    by simp
  then have "cold_touch_loop 0 ?s0 =
      Some (?s0\<lparr>heap := Some (map of_nat [0..<CACHE_SIZE_BYTES]),
                 trace := trace ?s0 @ map (\<lambda>k. EvWrite k (of_nat k)) [0..<CACHE_SIZE_BYTES]\<rparr>)"
    by (rule cold_touch_run) simp
  then show ?thesis
    by (simp only: cold_events_mod cold_bytes_mod main_run) simp
qed

text \<open>
  C6. The compiled geometry: the cache size is an exact multiple of the line size,
  the line count is their quotient, and the constants are 16384, 64 and 256.
\<close>

theorem geometry_invariant:
  "CACHE_SIZE_BYTES mod CACHE_LINE_BYTES = 0 \<and>
   NUM_CACHE_LINES = CACHE_SIZE_BYTES div CACHE_LINE_BYTES \<and>
   CACHE_SIZE_BYTES = 16384 \<and> CACHE_LINE_BYTES = 64 \<and> NUM_CACHE_LINES = 256 \<and>
   (16384::nat) mod 64 = 0"
  by (simp add: NUM_CACHE_LINES_def CACHE_SIZE_BYTES_def CACHE_LINE_BYTES_def)

text \<open>
  C7. The verify pass run twice in a row on a live block of the cache size returns the
  same checksum both times, and leaves the block and the sink as they were.
\<close>

theorem verify_idempotent:
  assumes "heap s = Some b" and "length b = CACHE_SIZE_BYTES"
  shows "\<exists>c s1 s2. verify_loop 0 0 s = Some (c, s1) \<and> verify_loop 0 0 s1 = Some (c, s2) \<and>
           heap s1 = heap s \<and> heap s2 = heap s \<and> sink s1 = sink s \<and> sink s2 = sink s"
proof -
  let ?c = "sum_list (map (\<lambda>l. ucast (b ! (l * CACHE_LINE_BYTES))) [0..<NUM_CACHE_LINES]) :: 64 word"
  let ?ev = "map (\<lambda>l. EvRead (l * CACHE_LINE_BYTES)) [0..<NUM_CACHE_LINES]"
  let ?s1 = "s\<lparr>trace := trace s @ ?ev\<rparr>"
  let ?s2 = "?s1\<lparr>trace := trace ?s1 @ ?ev\<rparr>"
  have v1: "verify_loop 0 0 s = Some (?c, ?s1)"
    by (rule verify_run[OF assms])
  have "heap ?s1 = Some b"
    using assms by simp
  then have v2: "verify_loop 0 0 ?s1 = Some (?c, ?s2)"
    using assms(2) by (rule verify_run)
  have "heap ?s1 = heap s \<and> heap ?s2 = heap s \<and> sink ?s1 = sink s \<and> sink ?s2 = sink s"
    by simp
  with v1 v2 show ?thesis by blast
qed

theorem verify_idempotent_witness:
  "\<exists>c s1 s2.
     verify_loop 0 0 \<lparr>heap = Some (replicate CACHE_SIZE_BYTES 7), sink = 0, trace = []\<rparr> = Some (c, s1) \<and>
     verify_loop 0 0 s1 = Some (c, s2) \<and>
     heap s1 = Some (replicate CACHE_SIZE_BYTES 7) \<and> heap s2 = Some (replicate CACHE_SIZE_BYTES 7)"
  using verify_idempotent[of "\<lparr>heap = Some (replicate CACHE_SIZE_BYTES 7), sink = 0, trace = []\<rparr>"
                             "replicate CACHE_SIZE_BYTES 7"]
  by simp blast

text \<open>
  C8. No access leaves the block: for every allocator the run of \<open>main\<close> returns (it
  never takes the out-of-range branch of \<open>load\<close> or \<open>store\<close>), every offset it reads
  or writes is below \<open>CACHE_SIZE_BYTES\<close>, every line offset
  \<open>line * CACHE_LINE_BYTES\<close> with \<open>line < NUM_CACHE_LINES\<close> is below
  \<open>CACHE_SIZE_BYTES\<close>, and all of them fit a 32-bit C \<open>int\<close>.
\<close>

theorem accesses_in_bounds:
  "(\<exists>rc s. main a = Some (rc, s) \<and>
       list_all (\<lambda>e. case e of EvWrite off v \<Rightarrow> off < CACHE_SIZE_BYTES
                             | EvRead off \<Rightarrow> off < CACHE_SIZE_BYTES
                             | _ \<Rightarrow> True) (trace s)) \<and>
   (\<forall>line<NUM_CACHE_LINES. line * CACHE_LINE_BYTES < CACHE_SIZE_BYTES) \<and>
   CACHE_SIZE_BYTES < 2 ^ 31"
proof (intro conjI)
  show "\<exists>rc s. main a = Some (rc, s) \<and>
       list_all (\<lambda>e. case e of EvWrite off v \<Rightarrow> off < CACHE_SIZE_BYTES
                             | EvRead off \<Rightarrow> off < CACHE_SIZE_BYTES
                             | _ \<Rightarrow> True) (trace s)"
  proof (cases a)
    case AllocFails
    then show ?thesis
      using main_alloc_fails_bounds by (simp add: main_alloc_fails)
  next
    case (AllocGives junk)
    then show ?thesis
      by (auto simp: main_run list_all_iff line_offset_in)
  qed
  show "\<forall>line<NUM_CACHE_LINES. line * CACHE_LINE_BYTES < CACHE_SIZE_BYTES"
    by (simp add: line_offset_in)
  show "CACHE_SIZE_BYTES < 2 ^ 31"
    by (simp add: CACHE_SIZE_BYTES_def)
qed

theorem accesses_in_bounds_witness:
  "(\<exists>rc s. main (AllocGives (\<lambda>_. 0)) = Some (rc, s) \<and>
       list_all (\<lambda>e. case e of EvWrite off v \<Rightarrow> off < CACHE_SIZE_BYTES
                             | EvRead off \<Rightarrow> off < CACHE_SIZE_BYTES
                             | _ \<Rightarrow> True) (trace s)) \<and>
   255 * CACHE_LINE_BYTES < CACHE_SIZE_BYTES"
proof -
  note t = accesses_in_bounds[of "AllocGives (\<lambda>_. 0)"]
  have "(255::nat) < NUM_CACHE_LINES"
    by (simp add: NUM_CACHE_LINES_eq)
  with t have "255 * CACHE_LINE_BYTES < CACHE_SIZE_BYTES"
    by blast
  with t show ?thesis by blast
qed

text \<open>
  C9. The prime pass changes only the bytes whose offset is a multiple of
  \<open>CACHE_LINE_BYTES\<close> (each is incremented by one); every other byte is left as it
  was, so after cold touch and prime it still holds its cold value \<open>offset mod 256\<close>.
\<close>

theorem prime_pass_frame:
  assumes "heap s = Some b" and "length b = CACHE_SIZE_BYTES"
  shows "(\<exists>s' b'. prime_loop 0 s = Some s' \<and> heap s' = Some b' \<and> length b' = length b \<and>
            sink s' = sink s \<and>
            (\<forall>off<CACHE_SIZE_BYTES.
               b' ! off = (if CACHE_LINE_BYTES dvd off then b ! off + 1 else b ! off))) \<and>
         (\<exists>s1 b1 s2 b2. cold_touch_loop 0 s = Some s1 \<and> heap s1 = Some b1 \<and>
            prime_loop 0 s1 = Some s2 \<and> heap s2 = Some b2 \<and>
            (\<forall>off<CACHE_SIZE_BYTES. \<not> CACHE_LINE_BYTES dvd off \<longrightarrow>
               b2 ! off = b1 ! off \<and> b2 ! off = of_nat (off mod 256)))"
proof (rule conjI)
  let ?b' = "map (\<lambda>off. if CACHE_LINE_BYTES dvd off then b ! off + 1 else b ! off) [0..<CACHE_SIZE_BYTES]"
  let ?s' = "s\<lparr>heap := Some ?b',
                trace := trace s @ concat (map (\<lambda>l. [EvRead (l * CACHE_LINE_BYTES),
                                                      EvWrite (l * CACHE_LINE_BYTES) (b ! (l * CACHE_LINE_BYTES) + 1)])
                                               [0..<NUM_CACHE_LINES])\<rparr>"
  have "prime_loop 0 s = Some ?s'"
    by (rule prime_run[OF assms])
  moreover have "heap ?s' = Some ?b'" and "length ?b' = length b" and "sink ?s' = sink s"
    using assms by simp_all
  moreover have "\<forall>off<CACHE_SIZE_BYTES.
      ?b' ! off = (if CACHE_LINE_BYTES dvd off then b ! off + 1 else b ! off)"
    by simp
  ultimately show "\<exists>s' b'. prime_loop 0 s = Some s' \<and> heap s' = Some b' \<and> length b' = length b \<and>
            sink s' = sink s \<and>
            (\<forall>off<CACHE_SIZE_BYTES.
               b' ! off = (if CACHE_LINE_BYTES dvd off then b ! off + 1 else b ! off))"
    by blast
next
  let ?cb = "map of_nat [0..<CACHE_SIZE_BYTES] :: 8 word list"
  let ?pb = "map (\<lambda>off. if CACHE_LINE_BYTES dvd off then of_nat off + 1 else of_nat off)
                 [0..<CACHE_SIZE_BYTES] :: 8 word list"
  let ?s1 = "s\<lparr>heap := Some ?cb,
                trace := trace s @ map (\<lambda>k. EvWrite k (of_nat k)) [0..<CACHE_SIZE_BYTES]\<rparr>"
  let ?s2 = "?s1\<lparr>heap := Some ?pb,
                  trace := trace ?s1 @
                    concat (map (\<lambda>l. [EvRead (l * CACHE_LINE_BYTES),
                                       EvWrite (l * CACHE_LINE_BYTES) (of_nat (l * CACHE_LINE_BYTES) + 1)])
                                [0..<NUM_CACHE_LINES])\<rparr>"
  have "cold_touch_loop 0 s = Some ?s1"
    by (rule cold_touch_run[OF assms])
  moreover have "heap ?s1 = Some ?cb"
    by simp
  moreover have "prime_loop 0 ?s1 = Some ?s2"
    by (rule prime_after_cold) simp
  moreover have "heap ?s2 = Some ?pb"
    by simp
  moreover have "\<forall>off<CACHE_SIZE_BYTES. \<not> CACHE_LINE_BYTES dvd off \<longrightarrow>
        ?pb ! off = ?cb ! off \<and> ?pb ! off = of_nat (off mod 256)"
    by (simp add: of_nat_mod_256)
  ultimately show "\<exists>s1 b1 s2 b2. cold_touch_loop 0 s = Some s1 \<and> heap s1 = Some b1 \<and>
            prime_loop 0 s1 = Some s2 \<and> heap s2 = Some b2 \<and>
            (\<forall>off<CACHE_SIZE_BYTES. \<not> CACHE_LINE_BYTES dvd off \<longrightarrow>
               b2 ! off = b1 ! off \<and> b2 ! off = of_nat (off mod 256))"
    by blast
qed

theorem prime_pass_frame_witness:
  "(\<exists>s' b'. prime_loop 0 \<lparr>heap = Some (replicate CACHE_SIZE_BYTES 7), sink = 0, trace = []\<rparr> = Some s' \<and>
       heap s' = Some b' \<and> b' ! 1 = 7 \<and> b' ! 64 = 8) \<and>
   (\<exists>s1 b1 s2 b2.
       cold_touch_loop 0 \<lparr>heap = Some (replicate CACHE_SIZE_BYTES 7), sink = 0, trace = []\<rparr> = Some s1 \<and>
       heap s1 = Some b1 \<and> prime_loop 0 s1 = Some s2 \<and> heap s2 = Some b2 \<and>
       b2 ! 65 = b1 ! 65 \<and> b2 ! 65 = 65)"
proof -
  let ?s = "\<lparr>heap = Some (replicate CACHE_SIZE_BYTES 7), sink = 0, trace = []\<rparr>"
  let ?b = "replicate CACHE_SIZE_BYTES (7 :: 8 word)"
  have in1: "1 < CACHE_SIZE_BYTES" and in64: "64 < CACHE_SIZE_BYTES" and in65: "65 < CACHE_SIZE_BYTES"
    by (simp_all add: CACHE_SIZE_BYTES_def)
  have d1: "\<not> CACHE_LINE_BYTES dvd 1" and d64: "CACHE_LINE_BYTES dvd 64" and d65: "\<not> CACHE_LINE_BYTES dvd 65"
    by (simp_all add: CACHE_LINE_BYTES_def)
  have "heap ?s = Some ?b" and "length ?b = CACHE_SIZE_BYTES"
    by simp_all
  from prime_pass_frame[OF this] obtain s' b' s1 b1 s2 b2 where
    p: "prime_loop 0 ?s = Some s'" "heap s' = Some b'"
    and f: "\<forall>off<CACHE_SIZE_BYTES. b' ! off = (if CACHE_LINE_BYTES dvd off then ?b ! off + 1 else ?b ! off)"
    and c: "cold_touch_loop 0 ?s = Some s1" "heap s1 = Some b1" "prime_loop 0 s1 = Some s2" "heap s2 = Some b2"
    and g: "\<forall>off<CACHE_SIZE_BYTES. \<not> CACHE_LINE_BYTES dvd off \<longrightarrow>
               b2 ! off = b1 ! off \<and> b2 ! off = of_nat (off mod 256)"
    by blast
  from f[rule_format, OF in1] d1 in1 have "b' ! 1 = 7" by simp
  moreover from f[rule_format, OF in64] d64 in64 have "b' ! 64 = 8" by simp
  moreover from g[rule_format, OF in65 d65] have "b2 ! 65 = b1 ! 65" by (rule conjunct1)
  moreover from g[rule_format, OF in65 d65] have "b2 ! 65 = of_nat (65 mod 256)" by (rule conjunct2)
  then have "b2 ! 65 = 65" by simp
  ultimately show ?thesis using p c by blast
qed

text \<open>
  C10. In a run whose allocation succeeds, the verify pass returns the checksum 24832,
  which is the exact sum of the 256 bytes read (the 64-bit accumulator does not wrap),
  and the byte stored into \<open>sink\<close> is 0.
\<close>

theorem final_checksum_and_sink:
  "\<exists>s1 s2 s3 b2 c.
     cold_touch_loop 0
       (snd (aligned_alloc (AllocGives junk) CACHE_SIZE_BYTES CACHE_SIZE_BYTES initial_state)) = Some s1 \<and>
     prime_loop 0 s1 = Some s2 \<and> heap s2 = Some b2 \<and>
     verify_loop 0 0 s2 = Some (c, s3) \<and>
     c = 24832 \<and>
     unat c = sum_list (map (\<lambda>line. unat (b2 ! (line * CACHE_LINE_BYTES))) [0..<NUM_CACHE_LINES]) \<and>
     sum_list (map (\<lambda>line. unat (b2 ! (line * CACHE_LINE_BYTES))) [0..<NUM_CACHE_LINES]) = 24832 \<and>
     main (AllocGives junk) = Some (0, free_buf (store_sink c s3)) \<and>
     sink (free_buf (store_sink c s3)) = 0 \<and>
     unat c mod 256 = 0 \<and>
     last (butlast (trace (free_buf (store_sink c s3)))) = EvSink 0"
proof -
  let ?s0 = "\<lparr>heap = Some (map junk [0..<CACHE_SIZE_BYTES]), sink = 0,
              trace = [EvAlloc CACHE_SIZE_BYTES CACHE_SIZE_BYTES]\<rparr>"
  let ?cb = "map of_nat [0..<CACHE_SIZE_BYTES] :: 8 word list"
  let ?pb = "map (\<lambda>off. if CACHE_LINE_BYTES dvd off then of_nat off + 1 else of_nat off)
                 [0..<CACHE_SIZE_BYTES] :: 8 word list"
  let ?s1 = "?s0\<lparr>heap := Some ?cb,
                  trace := trace ?s0 @ map (\<lambda>k. EvWrite k (of_nat k)) [0..<CACHE_SIZE_BYTES]\<rparr>"
  let ?s2 = "?s1\<lparr>heap := Some ?pb,
                  trace := trace ?s1 @
                    concat (map (\<lambda>l. [EvRead (l * CACHE_LINE_BYTES),
                                       EvWrite (l * CACHE_LINE_BYTES) (of_nat (l * CACHE_LINE_BYTES) + 1)])
                                [0..<NUM_CACHE_LINES])\<rparr>"
  let ?s3 = "?s2\<lparr>trace := trace ?s2 @ map (\<lambda>l. EvRead (l * CACHE_LINE_BYTES)) [0..<NUM_CACHE_LINES]\<rparr>"
  have a: "aligned_alloc (AllocGives junk) CACHE_SIZE_BYTES CACHE_SIZE_BYTES initial_state = (True, ?s0)"
    by (simp add: initial_state_def)
  have c: "cold_touch_loop 0 ?s0 = Some ?s1"
    by (rule cold_touch_run[where b = "map junk [0..<CACHE_SIZE_BYTES]"]) simp_all
  have p: "prime_loop 0 ?s1 = Some ?s2"
    by (rule prime_after_cold) simp
  have h2: "heap ?s2 = Some ?pb"
    by simp
  have v: "verify_loop 0 0 ?s2 = Some (24832, ?s3)"
    by (rule verify_after_prime) simp
  have "map (\<lambda>line. unat (?pb ! (line * CACHE_LINE_BYTES))) [0..<NUM_CACHE_LINES] =
        map (\<lambda>l. unat (of_nat (l * CACHE_LINE_BYTES) + 1 :: 8 word)) [0..<NUM_CACHE_LINES]"
    by (rule map_cong[OF refl]) (simp add: line_offset_in)
  then have n: "sum_list (map (\<lambda>line. unat (?pb ! (line * CACHE_LINE_BYTES))) [0..<NUM_CACHE_LINES]) = 24832"
    by (simp only: checksum_nat)
  have u: "unat (24832 :: 64 word) =
           sum_list (map (\<lambda>line. unat (?pb ! (line * CACHE_LINE_BYTES))) [0..<NUM_CACHE_LINES])"
    by (simp only: n unat_checksum)
  have m: "main (AllocGives junk) = Some (0, free_buf (store_sink 24832 ?s3))"
    unfolding main_def a by (simp only: c p v prod.case option.case bool.case)
  have k: "sink (free_buf (store_sink 24832 ?s3)) = 0"
    by (simp add: free_buf_def store_sink_def)
  have r: "unat (24832 :: 64 word) mod 256 = 0"
    by simp
  have e: "last (butlast (trace (free_buf (store_sink 24832 ?s3)))) = EvSink 0"
    by (simp add: free_buf_def store_sink_def butlast_append)
  show ?thesis
    unfolding a snd_conv
    by (intro exI conjI) (fact c, fact p, fact h2, fact v, rule refl, fact u, fact n, fact m, fact k, fact r, fact e)
qed

end
